theory Spec2Isabelle
  imports Complex_Main "HOL-Library.Multiset" "HOL-Library.AList" "HOL-Library.Product_Lexorder"
begin

section \<open>Table detection: containment and nesting levels (table\_extraction/detector.py)\<close>

text \<open>
  Python exceptions that the modelled functions can raise. Coordinates, areas and scores
  are Python floats in the source; they are modelled as exact rationals, so the
  thresholds \<open>0.85\<close> and \<open>0.9\<close> are the fractions \<open>85/100\<close> and \<open>9/10\<close>.
\<close>

datatype py_error =
  KeyError | ZeroDivisionError | ValueError | RuntimeError | AttributeError | TypeError
  | DimensionMismatch

type_synonym bbox = "rat \<times> rat \<times> rat \<times> rat"

text \<open>
  One entry of \<open>tables_info\<close>: the dict with the keys \<open>page\<close>, \<open>bbox\<close>, \<open>table_id\<close>,
  \<open>parent_id\<close> (\<open>None\<close> or a table id) and \<open>nesting_level\<close>.
\<close>

record table =
  page :: nat
  bbox :: bbox
  table_id :: string
  parent_id :: "string option"
  nesting_level :: nat

definition py_truediv :: "rat \<Rightarrow> rat \<Rightarrow> py_error + rat" where
  "py_truediv a b = (if b = 0 then Inl ZeroDivisionError else Inr (a / b))"

definition calculate_area :: "bbox \<Rightarrow> rat" where
  "calculate_area b = (case b of (x1, y1, x2, y2) \<Rightarrow> (x2 - x1) * (y2 - y1))"

text \<open>\<open>_is_contained(inner_bbox, outer_bbox, threshold=0.85)\<close>.\<close>

definition is_contained :: "bbox \<Rightarrow> bbox \<Rightarrow> rat \<Rightarrow> py_error + bool" where
  "is_contained inner_bbox outer_bbox threshold =
     (case inner_bbox of (ix1, iy1, ix2, iy2) \<Rightarrow>
      case outer_bbox of (ox1, oy1, ox2, oy2) \<Rightarrow>
        let intersection_x1 = max ix1 ox1;
            intersection_y1 = max iy1 oy1;
            intersection_x2 = min ix2 ox2;
            intersection_y2 = min iy2 oy2
        in if intersection_x1 \<ge> intersection_x2 \<or> intersection_y1 \<ge> intersection_y2
           then Inr False
           else
             let intersection_area =
                   (intersection_x2 - intersection_x1) * (intersection_y2 - intersection_y1);
                 inner_area = (ix2 - ix1) * (iy2 - iy1)
             in (case py_truediv intersection_area inner_area of
                   Inl e \<Rightarrow> Inl e
                 | Inr contained_ratio \<Rightarrow>
                     (case py_truediv inner_area (calculate_area outer_bbox) of
                        Inl e \<Rightarrow> Inl e
                      | Inr area_ratio \<Rightarrow>
                          Inr (contained_ratio > threshold \<and> area_ratio < 9 / 10))))"

text \<open>
  The body of the double loop of \<open>_detect_nested_relationships\<close> for one pair
  \<open>(i, outer)\<close>, \<open>(j, inner)\<close>. The list \<open>ts\<close> is \<open>tables_info\<close>; the page lists hold
  references to its dicts, modelled as indices \<open>oi\<close> and \<open>ii\<close> into \<open>ts\<close>.
\<close>

definition mark_pair :: "nat \<times> nat \<Rightarrow> nat \<times> nat \<Rightarrow> table list \<Rightarrow> py_error + table list" where
  "mark_pair outer inner ts =
     (case outer of (i, oi) \<Rightarrow> case inner of (j, ii) \<Rightarrow>
        if i \<noteq> j then
          (case is_contained (bbox (ts ! ii)) (bbox (ts ! oi)) (85 / 100) of
             Inl e \<Rightarrow> Inl e
           | Inr c \<Rightarrow>
               if c then Inr (ts[ii := (ts ! ii)\<lparr>parent_id := Some (table_id (ts ! oi))\<rparr>])
               else Inr ts)
        else Inr ts)"

fun mark_inner :: "nat \<times> nat \<Rightarrow> (nat \<times> nat) list \<Rightarrow> table list \<Rightarrow> py_error + table list" where
  "mark_inner outer [] ts = Inr ts"
| "mark_inner outer (inner # rest) ts =
     (case mark_pair outer inner ts of
        Inl e \<Rightarrow> Inl e
      | Inr ts' \<Rightarrow> mark_inner outer rest ts')"

fun mark_outer :: "(nat \<times> nat) list \<Rightarrow> (nat \<times> nat) list \<Rightarrow> table list \<Rightarrow> py_error + table list" where
  "mark_outer [] page_tables ts = Inr ts"
| "mark_outer (outer # rest) page_tables ts =
     (case mark_inner outer page_tables ts of
        Inl e \<Rightarrow> Inl e
      | Inr ts' \<Rightarrow> mark_outer rest page_tables ts')"

text \<open>
  \<open>tables_by_page\<close>: a dict from page to the list of tables of that page, in insertion
  order; an association list whose values are lists of indices into \<open>tables_info\<close>.
\<close>

fun add_to_page :: "nat \<Rightarrow> nat \<Rightarrow> (nat \<times> nat list) list \<Rightarrow> (nat \<times> nat list) list" where
  "add_to_page pg i [] = [(pg, [i])]"
| "add_to_page pg i ((p, idxs) # rest) =
     (if p = pg then (p, idxs @ [i]) # rest else (p, idxs) # add_to_page pg i rest)"

definition tables_by_page :: "table list \<Rightarrow> (nat \<times> nat list) list" where
  "tables_by_page ts = fold (\<lambda>i groups. add_to_page (page (ts ! i)) i groups) [0..<length ts] []"

text \<open>
  \<open>page_tables.sort(key=area, reverse=True)\<close>: Python's sort is stable, also with
  \<open>reverse=True\<close>; that is the stable ascending sort on the negated key.
\<close>

definition sort_by_area_desc :: "table list \<Rightarrow> nat list \<Rightarrow> nat list" where
  "sort_by_area_desc ts idxs = sort_key (\<lambda>i. - calculate_area (bbox (ts ! i))) idxs"

fun mark_pages :: "(nat \<times> nat list) list \<Rightarrow> table list \<Rightarrow> py_error + table list" where
  "mark_pages [] ts = Inr ts"
| "mark_pages ((pg, idxs) # rest) ts =
     (let page_tables = List.enumerate 0 (sort_by_area_desc ts idxs)
      in case mark_outer page_tables page_tables ts of
           Inl e \<Rightarrow> Inl e
         | Inr ts' \<Rightarrow> mark_pages rest ts')"

text \<open>
  \<open>_calculate_nesting_levels\<close>. The dict comprehension \<open>table_id_to_index\<close> keeps the last
  index of a repeated id.
\<close>

definition table_id_to_index :: "table list \<Rightarrow> (string \<rightharpoonup> nat)" where
  "table_id_to_index ts =
     fold (\<lambda>(i, t) m. m(table_id t \<mapsto> i)) (List.enumerate 0 ts) Map.empty"

text \<open>One execution of the \<open>for table in tables_info\<close> loop, from index list \<open>idxs\<close> on.\<close>

fun level_pass :: "(string \<rightharpoonup> nat) \<Rightarrow> nat list \<Rightarrow> table list \<times> bool \<Rightarrow> py_error + table list \<times> bool" where
  "level_pass m [] (ts, changed) = Inr (ts, changed)"
| "level_pass m (i # idxs) (ts, changed) =
     (case parent_id (ts ! i) of
        None \<Rightarrow> level_pass m idxs (ts, changed)
      | Some p \<Rightarrow>
          (case m p of
             None \<Rightarrow> Inl KeyError
           | Some parent_idx \<Rightarrow>
               if nesting_level (ts ! i) \<le> nesting_level (ts ! parent_idx)
               then level_pass m idxs
                      (ts[i := (ts ! i)\<lparr>nesting_level := nesting_level (ts ! parent_idx) + 1\<rparr>], True)
               else level_pass m idxs (ts, changed)))"

text \<open>
  The \<open>while changed\<close> loop. It may run forever, so not returning is the value \<open>None\<close>.
  The counter \<open>passes\<close> is not in the source: it counts the executions of the loop body
  and is returned with the final list.
\<close>

partial_function (option) levels_loop ::
    "(string \<rightharpoonup> nat) \<Rightarrow> nat \<Rightarrow> table list \<Rightarrow> (py_error + table list \<times> nat) option" where
  "levels_loop m passes ts =
     (case level_pass m [0..<length ts] (ts, False) of
        Inl e \<Rightarrow> Some (Inl e)
      | Inr r \<Rightarrow> if snd r then levels_loop m (Suc passes) (fst r)
                 else Some (Inr (fst r, Suc passes)))"

definition calculate_nesting_levels :: "table list \<Rightarrow> (py_error + table list \<times> nat) option" where
  "calculate_nesting_levels ts =
     levels_loop (table_id_to_index ts) 0 (map (\<lambda>t. t\<lparr>nesting_level := 0\<rparr>) ts)"

definition detect_nested_relationships :: "table list \<Rightarrow> (py_error + table list \<times> nat) option" where
  "detect_nested_relationships ts =
     (case mark_pages (tables_by_page ts) ts of
        Inl e \<Rightarrow> Some (Inl e)
      | Inr ts' \<Rightarrow> calculate_nesting_levels ts')"




inductive has_depth :: "(string \<rightharpoonup> nat) \<Rightarrow> string option list \<Rightarrow> nat \<Rightarrow> nat \<Rightarrow> bool"
  for m :: "string \<rightharpoonup> nat" and pids :: "string option list" where
  root: "i < length pids \<Longrightarrow> pids ! i = None \<Longrightarrow> has_depth m pids i 0"
| child: "i < length pids \<Longrightarrow> pids ! i = Some p \<Longrightarrow> m p = Some j \<Longrightarrow> has_depth m pids j d
          \<Longrightarrow> has_depth m pids i (Suc d)"

definition levels_resolved :: "(string \<rightharpoonup> nat) \<Rightarrow> table list \<Rightarrow> bool" where
  "levels_resolved m ts =
     (\<forall>i \<in> set [0..<length ts].
        case parent_id (ts ! i) of
          None \<Rightarrow> nesting_level (ts ! i) = 0
        | Some p \<Rightarrow>
            (case m p of
               None \<Rightarrow> False
             | Some j \<Rightarrow> j < length ts \<and> table_id (ts ! j) = p
                          \<and> nesting_level (ts ! j) < nesting_level (ts ! i)))"

definition parents_larger :: "table list \<Rightarrow> bool" where
  "parents_larger ts =
     (\<forall>i \<in> set [0..<length ts].
        case parent_id (ts ! i) of
          None \<Rightarrow> True
        | Some p \<Rightarrow>
            (case table_id_to_index ts p of
               None \<Rightarrow> False
             | Some j \<Rightarrow> calculate_area (bbox (ts ! i)) < calculate_area (bbox (ts ! j))))"

definition lvl_upper :: "(string \<rightharpoonup> nat) \<Rightarrow> string option list \<Rightarrow> table list \<Rightarrow> bool" where
  "lvl_upper m pids ts = (\<forall>i d. has_depth m pids i d \<longrightarrow> nesting_level (ts ! i) \<le> d)"

definition lvl_settled :: "(string \<rightharpoonup> nat) \<Rightarrow> string option list \<Rightarrow> nat set \<Rightarrow> nat \<Rightarrow> table list \<Rightarrow> bool" where
  "lvl_settled m pids V k ts =
     (\<forall>i d. i \<in> V \<longrightarrow> has_depth m pids i d \<longrightarrow> d \<le> k \<longrightarrow> nesting_level (ts ! i) = d)"

definition loop_post :: "(string \<rightharpoonup> nat) \<Rightarrow> table list \<Rightarrow> (py_error + table list \<times> nat) \<Rightarrow> bool" where
  "loop_post m ts y = (\<forall>ts' p. y = Inr (ts', p) \<longrightarrow>
       level_pass m [0..<length ts'] (ts', False) = Inr (ts', False)
       \<and> length ts' = length ts \<and> map parent_id ts' = map parent_id ts
       \<and> map table_id ts' = map table_id ts \<and> map bbox ts' = map bbox ts
       \<and> map page ts' = map page ts
       \<and> (\<forall>i. parent_id (ts ! i) = None \<longrightarrow> nesting_level (ts' ! i) = nesting_level (ts ! i)))"

definition larger_count :: "(nat \<Rightarrow> rat) \<Rightarrow> nat \<Rightarrow> nat \<Rightarrow> nat" where
  "larger_count a n i = card {j. j < n \<and> a i < a j}"

definition same_regions :: "table list \<Rightarrow> table list \<Rightarrow> bool" where
  "same_regions ts ts' =
     (length ts' = length ts \<and> map bbox ts' = map bbox ts
      \<and> map table_id ts' = map table_id ts \<and> map page ts' = map page ts)"

definition parent_inv :: "table list \<Rightarrow> bool" where
  "parent_inv ts =
     (\<forall>i < length ts. \<forall>p. parent_id (ts ! i) = Some p \<longrightarrow>
        (\<exists>j < length ts. table_id (ts ! j) = p
           \<and> calculate_area (bbox (ts ! i)) < calculate_area (bbox (ts ! j))))"
text \<open>
  Example regions: \<open>exB\<close> lies inside \<open>exA\<close> and \<open>exC\<close> inside \<open>exB\<close>, all on page 0, as
  the region provider creates them (no parent, level 0). \<open>ex_chain\<close> is the list after
  the containment pass, children listed before their parents.
\<close>

definition exA :: table where
  "exA = \<lparr>page = 0, bbox = (0, 0, 100, 100), table_id = ''page_0_table_0'',
           parent_id = None, nesting_level = 0\<rparr>"

definition exB :: table where
  "exB = \<lparr>page = 0, bbox = (10, 10, 90, 90), table_id = ''page_0_table_1'',
           parent_id = None, nesting_level = 0\<rparr>"

definition exC :: table where
  "exC = \<lparr>page = 0, bbox = (20, 20, 80, 80), table_id = ''page_0_table_2'',
           parent_id = None, nesting_level = 0\<rparr>"

definition ex_chain :: "table list" where
  "ex_chain = [exC\<lparr>parent_id := Some ''page_0_table_1''\<rparr>,
               exB\<lparr>parent_id := Some ''page_0_table_0''\<rparr>, exA]"

definition ex_chain_resolved :: "table list" where
  "ex_chain_resolved =
     [exC\<lparr>parent_id := Some ''page_0_table_1'', nesting_level := 2\<rparr>,
      exB\<lparr>parent_id := Some ''page_0_table_0'', nesting_level := 1\<rparr>, exA]"

section \<open>Vector index (vector\_indexing/indexer.py)\<close>

text \<open>
  Python strings that may hold any Unicode text are lists of code points; \<open>u\<close> embeds an
  ASCII literal. A metadata value is a string or an integer.
\<close>

type_synonym ustr = "nat list"

definition u :: "string \<Rightarrow> ustr" where
  "u s = map of_char s"

datatype pyval = PStr ustr | PInt int

text \<open>
  The result of numpy's float division, which does not raise: \<open>x / 0\<close> is \<open>nan\<close> for
  \<open>x = 0\<close> and an infinity otherwise. Finite floats are modelled as reals.
\<close>

datatype fval = Fin real | PosInf | NegInf | NaN

definition np_divide :: "real \<Rightarrow> real \<Rightarrow> fval" where
  "np_divide a b =
     (if b \<noteq> 0 then Fin (a / b)
      else if a = 0 then NaN
      else if 0 < a then PosInf else NegInf)"

fun fneg :: "fval \<Rightarrow> fval" where
  "fneg (Fin x) = Fin (- x)"
| "fneg PosInf = NegInf"
| "fneg NegInf = PosInf"
| "fneg NaN = NaN"

fun one_minus :: "fval \<Rightarrow> fval" where
  "one_minus (Fin x) = Fin (1 - x)"
| "one_minus PosInf = NegInf"
| "one_minus NegInf = PosInf"
| "one_minus NaN = NaN"

text \<open>
  \<open>np.argsort\<close>: the indices that sort the values ascending, \<open>nan\<close> last. numpy leaves
  the order of equal values open; the model keeps them in index order.
\<close>

fun sort_rank :: "fval \<Rightarrow> nat \<times> real" where
  "sort_rank NegInf = (0, 0)"
| "sort_rank (Fin x) = (1, x)"
| "sort_rank PosInf = (2, 0)"
| "sort_rank NaN = (3, 0)"

definition np_argsort :: "fval list \<Rightarrow> nat list" where
  "np_argsort xs = sort_key (\<lambda>i. sort_rank (xs ! i)) [0..<length xs]"

text \<open>The slice \<open>xs[:k]\<close> for a Python integer \<open>k\<close>.\<close>

definition slice_to :: "int \<Rightarrow> 'a list \<Rightarrow> 'a list" where
  "slice_to k xs = (if 0 \<le> k then take (nat k) xs else take (length xs - nat (- k)) xs)"

text \<open>
  One element of the list handed to \<open>build_index\<close>: the payload fields and the embedding
  vector.
\<close>

record payload =
  table_idx :: nat
  chunk_type :: ustr
  content :: ustr
  metadata :: "(ustr \<times> pyval) list"

record embedding_data = payload +
  embedding :: "real list"

text \<open>
  \<open>self.index\<close>: the numpy array of the vectors, or the hnswlib index, of which the model
  keeps the items added to it.
\<close>

datatype index_obj = BruteForce "real list list" | Hnsw "real list list"

record builder =
  use_hnsw :: bool
  index :: "index_obj option"
  id_to_data :: "(nat \<times> payload) list"
  embedding_size :: "nat option"

record index_info =
  info_index :: "index_obj option"
  info_id_to_data :: "(nat \<times> payload) list"
  info_embedding_size :: "nat option"
  index_type :: string

record search_result =
  rid :: nat
  distance :: fval
  score :: fval
  rank :: nat
  data :: payload

text \<open>\<open>__init__(use_hnsw)\<close>; \<open>available\<close> is the module flag \<open>HNSW_AVAILABLE\<close>.\<close>

definition init_builder :: "bool \<Rightarrow> bool \<Rightarrow> builder" where
  "init_builder available use =
     \<lparr>use_hnsw = (use \<and> available), index = None, id_to_data = [], embedding_size = None\<rparr>"

text \<open>
  \<open>np.array(vectors)\<close> on a list of float lists. On rows of differing length numpy from
  1.24 on raises \<open>ValueError\<close> (\<open>strict\<close>); older versions build an array of objects.
\<close>

definition np_array :: "bool \<Rightarrow> real list list \<Rightarrow> py_error + real list list" where
  "np_array strict vectors =
     (if strict \<and> (\<exists>v \<in> set vectors. length v \<noteq> length (hd vectors))
      then Inl ValueError else Inr vectors)"

text \<open>
  \<open>_build_hnsw_index\<close>: \<open>add_items\<close> of hnswlib rejects data whose dimension is not the
  \<open>dim\<close> of the index.
\<close>

definition build_hnsw_index :: "bool \<Rightarrow> nat \<Rightarrow> real list list \<Rightarrow> py_error + index_obj" where
  "build_hnsw_index strict dimension vectors =
     (case np_array strict vectors of
        Inl e \<Rightarrow> Inl e
      | Inr arr \<Rightarrow>
          if \<exists>v \<in> set arr. length v \<noteq> dimension then Inl RuntimeError else Inr (Hnsw arr))"

definition to_payload :: "embedding_data \<Rightarrow> payload" where
  "to_payload e =
     \<lparr>table_idx = table_idx e, chunk_type = chunk_type e, content = content e,
      metadata = metadata e\<rparr>"

fun fill_id_to_data :: "(nat \<times> embedding_data) list \<Rightarrow> (nat \<times> payload) list \<Rightarrow> (nat \<times> payload) list" where
  "fill_id_to_data [] d = d"
| "fill_id_to_data ((i, e) # rest) d = fill_id_to_data rest (AList.update i (to_payload e) d)"

text \<open>
  \<open>build_index(embeddings)\<close>: the value returned or the exception raised, and the builder
  as the call leaves it.
\<close>

definition build_index ::
    "bool \<Rightarrow> builder \<Rightarrow> embedding_data list \<Rightarrow> (py_error + index_info option) \<times> builder" where
  "build_index strict self embeddings =
     (if embeddings = [] then (Inr None, self)
      else
        let vectors = map embedding embeddings;
            self1 = self\<lparr>embedding_size := Some (length (hd vectors))\<rparr>;
            built = (if use_hnsw self1
                     then build_hnsw_index strict (length (hd vectors)) vectors
                     else (case np_array strict vectors of
                             Inl e \<Rightarrow> Inl e
                           | Inr arr \<Rightarrow> Inr (BruteForce arr)))
        in (case built of
              Inl e \<Rightarrow> (Inl e, self1)
            | Inr ix \<Rightarrow>
                let self2 = self1\<lparr>index := Some ix\<rparr>;
                    self3 = self2\<lparr>id_to_data :=
                              fill_id_to_data (List.enumerate 0 embeddings) (id_to_data self2)\<rparr>
                in (Inr (Some \<lparr>info_index = index self3, info_id_to_data = id_to_data self3,
                                info_embedding_size = embedding_size self3,
                                index_type = (if use_hnsw self3 then ''hnsw'' else ''brute_force'')\<rparr>),
                    self3)))"

text \<open>The loop that builds \<open>results\<close>; \<open>self.id_to_data[idx]\<close> raises \<open>KeyError\<close>.\<close>

fun make_results ::
    "(nat \<times> payload) list \<Rightarrow> (nat \<times> nat \<times> fval \<times> fval) list \<Rightarrow> py_error + search_result list" where
  "make_results d [] = Inr []"
| "make_results d ((i, idx, dst, sc) # rest) =
     (case map_of d idx of
        None \<Rightarrow> Inl KeyError
      | Some p \<Rightarrow>
          (case make_results d rest of
             Inl e \<Rightarrow> Inl e
           | Inr rs \<Rightarrow> Inr (\<lparr>rid = idx, distance = dst, score = sc, rank = i, data = p\<rparr> # rs)))"

definition dot :: "real list \<Rightarrow> real list \<Rightarrow> real" where
  "dot v w = sum_list (map2 (*) v w)"

definition norm2 :: "real list \<Rightarrow> real" where
  "norm2 v = sqrt (sum_list (map (\<lambda>x. x * x) v))"

definition cosine_similarities :: "real list list \<Rightarrow> real list \<Rightarrow> fval list" where
  "cosine_similarities arr q = map (\<lambda>v. np_divide (dot v q) (norm2 v * norm2 q)) arr"

text \<open>
  \<open>search(query_vector, top_k)\<close>. \<open>knn_query\<close> is hnswlib's query on the items of the
  index: the ids and distances it returns for the query, or the error it raises.
\<close>

definition search ::
    "(real list list \<Rightarrow> real list \<Rightarrow> int \<Rightarrow> py_error + (nat \<times> real) list)
     \<Rightarrow> builder \<Rightarrow> real list \<Rightarrow> int \<Rightarrow> py_error + search_result list" where
  "search knn_query self query_vector top_k =
     (case index self of
        None \<Rightarrow> Inr []
      | Some ix \<Rightarrow>
          if use_hnsw self then
            (case ix of
               BruteForce arr \<Rightarrow> Inl AttributeError
             | Hnsw items \<Rightarrow>
                 (case knn_query items query_vector top_k of
                    Inl e \<Rightarrow> Inl e
                  | Inr found \<Rightarrow>
                      make_results (id_to_data self)
                        (map (\<lambda>(i, (idx, dst)). (i, idx, Fin dst, Fin (1 - dst)))
                           (List.enumerate 0 found))))
          else
            (case ix of
               Hnsw items \<Rightarrow> Inl TypeError
             | BruteForce arr \<Rightarrow>
                 if \<exists>v \<in> set arr. length v \<noteq> length query_vector then Inl ValueError
                 else
                   let cos = cosine_similarities arr query_vector;
                       top_indices = slice_to top_k (np_argsort (map fneg cos))
                   in make_results (id_to_data self)
                        (map (\<lambda>(i, idx). (i, idx, one_minus (cos ! idx), cos ! idx))
                           (List.enumerate 0 top_indices))))"

text \<open>
  hnswlib's \<open>knn_query\<close> raises \<open>RuntimeError\<close> when it cannot return \<open>k\<close> neighbours, as
  when fewer than \<open>k\<close> items are stored; which neighbours it picks otherwise is left to
  \<open>approx\<close>.
\<close>

definition hnswlib_knn_query ::
    "(real list list \<Rightarrow> real list \<Rightarrow> int \<Rightarrow> (nat \<times> real) list)
     \<Rightarrow> real list list \<Rightarrow> real list \<Rightarrow> int \<Rightarrow> py_error + (nat \<times> real) list" where
  "hnswlib_knn_query approx items q k =
     (if int (length items) < k then Inl RuntimeError else Inr (approx items q k))"


lemma is_contained_no_error: "is_contained b a th \<noteq> Inl e"
proof -
  obtain ax1 ay1 ax2 ay2 where a: "a = (ax1, ay1, ax2, ay2)" by (cases a) auto
  obtain bx1 by1 bx2 by2 where b: "b = (bx1, by1, bx2, by2)" by (cases b) auto
  show ?thesis
    by (auto simp: a b is_contained_def py_truediv_def Let_def calculate_area_def
        split: if_splits)
qed

lemma is_contained_area:
  assumes "is_contained b a th = Inr True"
  shows "calculate_area b < calculate_area a"
proof -
  obtain ax1 ay1 ax2 ay2 where a: "a = (ax1, ay1, ax2, ay2)" by (cases a) auto
  obtain bx1 by1 bx2 by2 where b: "b = (bx1, by1, bx2, by2)" by (cases b) auto
  from assms have g: "max bx1 ax1 < min bx2 ax2" "max by1 ay1 < min by2 ay2"
    and r: "calculate_area b / calculate_area a < 9 / 10"
    by (auto simp: a b is_contained_def py_truediv_def Let_def calculate_area_def
        split: if_splits)
  from g have "ax1 < ax2" "ay1 < ay2" by auto
  then have pa: "0 < calculate_area a" by (simp add: a calculate_area_def)
  from r pa have "calculate_area b < 9 / 10 * calculate_area a"
    by (simp add: pos_divide_less_eq)
  with pa show ?thesis by linarith
qed

subsection \<open>table_id_to_index\<close>

lemma table_id_to_index_snoc:
  "table_id_to_index (ts @ [t]) = (table_id_to_index ts)(table_id t \<mapsto> length ts)"
  by (simp add: table_id_to_index_def enumerate_append_eq)

lemma table_id_to_index_Nil: "table_id_to_index [] = Map.empty"
  by (simp add: table_id_to_index_def)

lemma table_id_to_index_Some:
  "table_id_to_index ts p = Some j \<Longrightarrow> j < length ts \<and> table_id (ts ! j) = p"
proof (induction ts arbitrary: j rule: rev_induct)
  case Nil
  then show ?case by (simp add: table_id_to_index_Nil)
next
  case (snoc t ts)
  then show ?case
    by (auto simp: table_id_to_index_snoc nth_append split: if_splits)
qed

lemma table_id_to_index_distinct:
  "distinct (map table_id ts) \<Longrightarrow> i < length ts \<Longrightarrow> table_id_to_index ts (table_id (ts ! i)) = Some i"
proof (induction ts rule: rev_induct)
  case Nil
  then show ?case by simp
next
  case (snoc t ts)
  have mem: "j < length ts \<Longrightarrow> table_id (ts ! j) = x \<Longrightarrow> x \<in> table_id ` set ts" for j x
    by (metis imageI nth_mem)
  from snoc show ?case
    by (auto simp: table_id_to_index_snoc nth_append less_Suc_eq dest: mem)
qed

lemma table_id_to_index_cong:
  "map table_id ts' = map table_id ts \<Longrightarrow> table_id_to_index ts' = table_id_to_index ts"
proof (induction ts arbitrary: ts' rule: rev_induct)
  case Nil
  then show ?case by simp
next
  case (snoc t ts)
  then obtain us u where ts': "ts' = us @ [u]"
    by (metis Nil_is_map_conv map_append rev_exhaust snoc_eq_iff_butlast list.simps(8) append_is_Nil_conv not_Cons_self2)
  with snoc.prems have "map table_id us = map table_id ts" "table_id u = table_id t" by auto
  with snoc.IH[of us] show ?case
    by (simp add: ts' table_id_to_index_snoc) (metis length_map)
qed

subsection \<open>One pass\<close>

lemma map_update_same: "(map f ts)[i := f (ts ! i)] = map f ts"
  by (cases "i < length ts") (simp_all add: list_update_same_conv list_update_beyond)

lemma level_pass_True:
  "level_pass m idxs (ts, True) = Inr (ts', c') \<Longrightarrow> c'"
  by (induction idxs arbitrary: ts) (auto split: option.splits if_splits)

lemma level_pass_frame:
  "level_pass m idxs (ts, c) = Inr (ts', c') \<Longrightarrow>
     length ts' = length ts \<and> map parent_id ts' = map parent_id ts
     \<and> map table_id ts' = map table_id ts \<and> map bbox ts' = map bbox ts
     \<and> map page ts' = map page ts"
proof (induction idxs arbitrary: ts c)
  case Nil
  then show ?case by simp
next
  case (Cons i idxs)
  show ?case
  proof (cases "parent_id (ts ! i)")
    case None
    with Cons show ?thesis by simp
  next
    case (Some p)
    show ?thesis
    proof (cases "m p")
      case None
      with Some Cons.prems show ?thesis by simp
    next
      case (Some j)
      let ?u = "ts[i := (ts ! i)\<lparr>nesting_level := nesting_level (ts ! j) + 1\<rparr>]"
      have u: "length ?u = length ts" "map parent_id ?u = map parent_id ts"
        "map table_id ?u = map table_id ts" "map bbox ?u = map bbox ts" "map page ?u = map page ts"
        by (simp_all add: map_update map_update_same)
      show ?thesis
      proof (cases "nesting_level (ts ! i) \<le> nesting_level (ts ! j)")
        case True
        with Cons.prems \<open>parent_id (ts ! i) = Some p\<close> Some
        have "level_pass m idxs (?u, True) = Inr (ts', c')" by simp
        from Cons.IH[OF this] u show ?thesis by simp
      next
        case False
        with Cons.prems \<open>parent_id (ts ! i) = Some p\<close> Some
        have "level_pass m idxs (ts, c) = Inr (ts', c')" by simp
        from Cons.IH[OF this] show ?thesis .
      qed
    qed
  qed
qed

lemma has_depth_fun: "has_depth m pids i d \<Longrightarrow> has_depth m pids i d' \<Longrightarrow> d = d'"
proof (induction arbitrary: d' rule: has_depth.induct)
  case (root i)
  from root.prems root.hyps show ?case by (auto elim: has_depth.cases)
next
  case (child i p j d)
  from child.prems child.hyps(1,2,3) obtain e where "d' = Suc e" "has_depth m pids j e"
    by (auto elim: has_depth.cases)
  with child.IH show ?case by simp
qed

lemma has_depth_less: "has_depth m pids i d \<Longrightarrow> i < length pids"
  by (auto elim: has_depth.cases)

text \<open>The nodes visited so far in the pass numbered \<open>Suc k\<close> have their final level where
  their depth is at most \<open>Suc k\<close>.\<close>

lemma level_pass_progress:
  assumes total: "\<forall>i < length pids. \<exists>d. has_depth m pids i d"
  shows "map parent_id ts = pids \<Longrightarrow> set idxs \<subseteq> {..<length pids} \<Longrightarrow> lvl_upper m pids ts
     \<Longrightarrow> lvl_settled m pids UNIV k ts \<Longrightarrow> lvl_settled m pids V (Suc k) ts
     \<Longrightarrow> \<exists>ts' c'. level_pass m idxs (ts, c) = Inr (ts', c') \<and> lvl_upper m pids ts'
           \<and> lvl_settled m pids UNIV k ts' \<and> lvl_settled m pids (V \<union> set idxs) (Suc k) ts'"
proof (induction idxs arbitrary: ts c V)
  case Nil
  then show ?case by simp
next
  case (Cons i idxs)
  from Cons.prems have i: "i < length pids" and len: "length ts = length pids"
    and pi: "parent_id (ts ! i) = pids ! i" by auto
  from total i obtain di where di: "has_depth m pids i di" by blast
  have idxs: "set idxs \<subseteq> {..<length pids}" using Cons.prems by simp
  show ?case
  proof (cases "pids ! i")
    case None
    with i have "has_depth m pids i 0" by (rule has_depth.root)
    with Cons.prems(4) have "nesting_level (ts ! i) = 0" by (auto simp: lvl_settled_def)
    with \<open>has_depth m pids i 0\<close> Cons.prems(5)
    have V': "lvl_settled m pids (insert i V) (Suc k) ts"
      by (auto simp: lvl_settled_def dest: has_depth_fun)
    from Cons.IH[OF Cons.prems(1) idxs Cons.prems(3,4) V', of c] None pi
    show ?thesis by simp
  next
    case (Some p)
    with di obtain j dj where mp: "m p = Some j" and dj: "has_depth m pids j dj" and didj: "di = Suc dj"
      by (auto elim: has_depth.cases)
    from dj have j: "j < length pids" by (rule has_depth_less)
    have ij: "i \<noteq> j" using di dj didj by (auto dest: has_depth_fun)
    have upj: "nesting_level (ts ! j) \<le> dj" using Cons.prems(3) dj by (auto simp: lvl_upper_def)
    have upi: "nesting_level (ts ! i) \<le> Suc dj" using Cons.prems(3) di didj by (auto simp: lvl_upper_def)
    show ?thesis
    proof (cases "nesting_level (ts ! i) \<le> nesting_level (ts ! j)")
      case True
      let ?u = "ts[i := (ts ! i)\<lparr>nesting_level := Suc (nesting_level (ts ! j))\<rparr>]"
      have lv: "nesting_level (?u ! x) = (if x = i then Suc (nesting_level (ts ! j)) else nesting_level (ts ! x))" for x
        using i len by (simp add: nth_list_update)
      have u1: "map parent_id ?u = pids"
        using Cons.prems(1) map_update_same[of parent_id ts i] by (simp add: map_update)
      have u3: "lvl_upper m pids ?u"
        using Cons.prems(3) upj di didj
        by (auto simp: lvl_upper_def lv dest: has_depth_fun)
      have notk: "\<not> Suc dj \<le> k"
      proof
        assume "Suc dj \<le> k"
        with Cons.prems(4) di didj dj have "nesting_level (ts ! i) = Suc dj" "nesting_level (ts ! j) = dj"
          by (auto simp: lvl_settled_def)
        with True show False by simp
      qed
      have u4: "lvl_settled m pids UNIV k ?u"
        using Cons.prems(4) notk di didj
        by (auto simp: lvl_settled_def lv dest: has_depth_fun)
      have "dj \<le> k \<Longrightarrow> nesting_level (ts ! j) = dj"
        using Cons.prems(4) dj by (auto simp: lvl_settled_def)
      then have u5: "lvl_settled m pids (insert i V) (Suc k) ?u"
        using Cons.prems(5) di didj
        by (auto simp: lvl_settled_def lv dest: has_depth_fun)
      from Cons.IH[OF u1 idxs u3 u4 u5, of True] Some mp pi True
      show ?thesis by simp
    next
      case False
      have "dj \<le> k \<Longrightarrow> nesting_level (ts ! j) = dj"
        using Cons.prems(4) dj by (auto simp: lvl_settled_def)
      with False upi have "Suc dj \<le> Suc k \<Longrightarrow> nesting_level (ts ! i) = Suc dj" by auto
      then have V': "lvl_settled m pids (insert i V) (Suc k) ts"
        using Cons.prems(5) di didj
        by (auto simp: lvl_settled_def dest: has_depth_fun)
      from Cons.IH[OF Cons.prems(1) idxs Cons.prems(3,4) V', of c] Some mp pi False
      show ?thesis by simp
    qed
  qed
qed

lemma level_pass_stable:
  assumes total: "\<forall>i < length pids. \<exists>d. has_depth m pids i d"
    and pids: "map parent_id ts = pids"
    and settled: "\<forall>i d. has_depth m pids i d \<longrightarrow> nesting_level (ts ! i) = d"
  shows "set idxs \<subseteq> {..<length pids} \<Longrightarrow> level_pass m idxs (ts, c) = Inr (ts, c)"
proof (induction idxs)
  case Nil
  then show ?case by simp
next
  case (Cons i idxs)
  from Cons.prems pids have i: "i < length pids" and pi: "parent_id (ts ! i) = pids ! i" by auto
  from total i obtain di where di: "has_depth m pids i di" by blast
  show ?case
  proof (cases "pids ! i")
    case None
    with Cons pi show ?thesis by simp
  next
    case (Some p)
    with di obtain j dj where mp: "m p = Some j" and dj: "has_depth m pids j dj" and didj: "di = Suc dj"
      by (auto elim: has_depth.cases)
    from settled di dj didj have "nesting_level (ts ! j) < nesting_level (ts ! i)" by auto
    with Cons Some mp pi show ?thesis by simp
  qed
qed

lemma level_pass_roots:
  "level_pass m idxs (ts, c) = Inr (ts', c') \<Longrightarrow> parent_id (ts ! i) = None
     \<Longrightarrow> nesting_level (ts' ! i) = nesting_level (ts ! i) \<and> parent_id (ts' ! i) = None"
proof (induction idxs arbitrary: ts c)
  case Nil
  then show ?case by simp
next
  case (Cons x idxs)
  show ?case
  proof (cases "parent_id (ts ! x)")
    case None
    with Cons show ?thesis by simp
  next
    case (Some p)
    then have xi: "x \<noteq> i" using Cons.prems(2) by auto
    from Cons.prems(1) Some obtain j where mp: "m p = Some j"
      by (cases "m p") auto
    show ?thesis
    proof (cases "nesting_level (ts ! x) \<le> nesting_level (ts ! j)")
      case True
      let ?u = "ts[x := (ts ! x)\<lparr>nesting_level := nesting_level (ts ! j) + 1\<rparr>]"
      from True Cons.prems(1) Some mp have "level_pass m idxs (?u, True) = Inr (ts', c')" by simp
      moreover have "?u ! i = ts ! i" using xi by simp
      ultimately show ?thesis using Cons.IH[of ?u True] Cons.prems(2) by simp
    next
      case False
      with Cons.prems(1) Some mp have "level_pass m idxs (ts, c) = Inr (ts', c')" by simp
      with Cons.IH[of ts c] Cons.prems(2) show ?thesis by simp
    qed
  qed
qed

lemma level_pass_False:
  "level_pass m idxs (ts, c) = Inr (ts', False) \<Longrightarrow>
     ts' = ts \<and> \<not> c \<and>
     (\<forall>i \<in> set idxs. \<forall>p. parent_id (ts ! i) = Some p \<longrightarrow>
        (\<exists>j. m p = Some j \<and> nesting_level (ts ! j) < nesting_level (ts ! i)))"
proof (induction idxs arbitrary: c)
  case Nil
  then show ?case by simp
next
  case (Cons x idxs)
  show ?case
  proof (cases "parent_id (ts ! x)")
    case None
    with Cons.prems have "level_pass m idxs (ts, c) = Inr (ts', False)" by simp
    from Cons.IH[OF this] None show ?thesis by auto
  next
    case (Some p)
    from Cons.prems Some obtain j where mp: "m p = Some j"
      by (cases "m p") auto
    show ?thesis
    proof (cases "nesting_level (ts ! x) \<le> nesting_level (ts ! j)")
      case True
      with Cons.prems Some mp have False
        by (auto dest: level_pass_True)
      then show ?thesis ..
    next
      case False
      with Cons.prems Some mp have "level_pass m idxs (ts, c) = Inr (ts', False)" by simp
      from Cons.IH[OF this] False Some mp show ?thesis by auto
    qed
  qed
qed

subsection \<open>The loop\<close>

lemma levels_loop_result_aux:
  assumes "levels_loop m c ts = Some y"
  shows "loop_post m ts y"
proof (rule levels_loop.raw_induct[where P = "\<lambda>m c ts y. loop_post m ts y", OF _ assms], goal_cases)
  case (1 loop m c ts y)
  note hyps = 1
  show ?case
    unfolding loop_post_def
  proof (intro allI impI)
    fix ts' p
    assume y: "y = Inr (ts', p)"
    obtain u ch where r: "level_pass m [0..<length ts] (ts, False) = Inr (u, ch)"
    proof (cases "level_pass m [0..<length ts] (ts, False)")
      case (Inl e)
      with hyps(2) y show ?thesis by simp
    next
      case (Inr r)
      with that show ?thesis by (cases r) simp
    qed
    note fr = level_pass_frame[OF r]
    show "level_pass m [0..<length ts'] (ts', False) = Inr (ts', False)
       \<and> length ts' = length ts \<and> map parent_id ts' = map parent_id ts
       \<and> map table_id ts' = map table_id ts \<and> map bbox ts' = map bbox ts
       \<and> map page ts' = map page ts
       \<and> (\<forall>i. parent_id (ts ! i) = None \<longrightarrow> nesting_level (ts' ! i) = nesting_level (ts ! i))"
    proof (cases ch)
      case True
      with hyps(2) r y have "loop m (Suc c) u = Some (Inr (ts', p))" by simp
      from hyps(1)[OF this] have
        ih: "level_pass m [0..<length ts'] (ts', False) = Inr (ts', False)"
          "length ts' = length u" "map parent_id ts' = map parent_id u"
          "map table_id ts' = map table_id u" "map bbox ts' = map bbox u"
          "map page ts' = map page u"
          "\<And>i. parent_id (u ! i) = None \<Longrightarrow> nesting_level (ts' ! i) = nesting_level (u ! i)"
        unfolding loop_post_def by blast+
      have "nesting_level (ts' ! i) = nesting_level (ts ! i)" if "parent_id (ts ! i) = None" for i
        using level_pass_roots[OF r that] ih(7)[of i] by simp
      with ih(1-6) fr show ?thesis by simp
    next
      case False
      with hyps(2) r y have eq: "ts' = u" by simp
      from r False have r0: "level_pass m [0..<length ts] (ts, False) = Inr (u, False)" by simp
      from level_pass_False[OF r0] have "u = ts" by simp
      with r0 eq show ?thesis by simp
    qed
  qed
qed

lemma levels_loop_result:
  assumes "levels_loop m c ts = Some (Inr (ts', p))"
  shows "level_pass m [0..<length ts'] (ts', False) = Inr (ts', False)"
    and "length ts' = length ts" and "map parent_id ts' = map parent_id ts"
    and "map table_id ts' = map table_id ts" and "map bbox ts' = map bbox ts"
    and "map page ts' = map page ts"
    and "parent_id (ts ! i) = None \<Longrightarrow> nesting_level (ts' ! i) = nesting_level (ts ! i)"
  using levels_loop_result_aux[OF assms] unfolding loop_post_def by blast+

lemma levels_loop_terminates:
  assumes total: "\<forall>i < length pids. \<exists>d. has_depth m pids i d"
    and bound: "\<forall>i d. has_depth m pids i d \<longrightarrow> d \<le> D"
  shows "map parent_id ts = pids \<Longrightarrow> lvl_upper m pids ts \<Longrightarrow> lvl_settled m pids UNIV k ts
     \<Longrightarrow> \<exists>ts' p. levels_loop m c ts = Some (Inr (ts', p)) \<and> p \<le> Suc c + (D - k)"
proof (induction "D - k" arbitrary: k ts c)
  case 0
  have "nesting_level (ts ! i) = d" if "has_depth m pids i d" for i d
  proof -
    from bound that have "d \<le> D" by blast
    with "0.hyps" have "d \<le> k" by simp
    with "0.prems"(3) that show ?thesis by (simp add: lvl_settled_def)
  qed
  then have st: "\<forall>i d. has_depth m pids i d \<longrightarrow> nesting_level (ts ! i) = d" by blast
  have sub: "set [0..<length ts] \<subseteq> {..<length pids}" using "0.prems"(1) by auto
  have "level_pass m [0..<length ts] (ts, False) = Inr (ts, False)"
    by (rule level_pass_stable[OF total "0.prems"(1) st sub])
  then have "levels_loop m c ts = Some (Inr (ts, Suc c))"
    by (subst levels_loop.simps) simp
  then show ?case by simp
next
  case (Suc n)
  have len: "length ts = length pids" using Suc.prems(1) by auto
  have V0: "lvl_settled m pids {} (Suc k) ts" by (simp add: lvl_settled_def)
  have sub: "set [0..<length ts] \<subseteq> {..<length pids}" using len by auto
  from level_pass_progress[OF total Suc.prems(1) sub Suc.prems(2,3) V0, of False]
  obtain u ch where r: "level_pass m [0..<length ts] (ts, False) = Inr (u, ch)"
    and up: "lvl_upper m pids u" and s': "lvl_settled m pids (set [0..<length ts]) (Suc k) u"
    by auto
  from level_pass_frame[OF r] Suc.prems(1) have pu: "map parent_id u = pids" by simp
  have su: "lvl_settled m pids UNIV (Suc k) u"
    using s' len by (auto simp: lvl_settled_def dest: has_depth_less)
  show ?case
  proof (cases ch)
    case True
    from Suc.hyps(2) have "n = D - Suc k" by simp
    from Suc.hyps(1)[OF this pu up su, of "Suc c"]
    obtain ts' p where "levels_loop m (Suc c) u = Some (Inr (ts', p))" "p \<le> Suc (Suc c) + (D - Suc k)"
      by auto
    moreover have "levels_loop m c ts = levels_loop m (Suc c) u"
      using r True by (subst levels_loop.simps) simp
    ultimately show ?thesis using Suc.hyps(2) by auto
  next
    case False
    with r have "levels_loop m c ts = Some (Inr (u, Suc c))"
      by (subst levels_loop.simps) simp
    then show ?thesis by simp
  qed
qed

subsection \<open>Depth exists and is bounded when parents are larger\<close>

lemma larger_count_less:
  fixes a :: "nat \<Rightarrow> rat"
  assumes "j < n" "a i < a j"
  shows "larger_count a n j < larger_count a n i"
proof -
  let ?A = "{x. x < n \<and> a j < a x}" and ?B = "{x. x < n \<and> a i < a x}"
  have "\<And>x. a j < a x \<Longrightarrow> a i < a x" using assms(2) by (rule less_trans)
  then have sub: "?A \<subseteq> ?B" by blast
  have "j \<in> ?B" "j \<notin> ?A" using assms by simp_all
  with sub have "?A \<subset> ?B" by blast
  moreover have "finite ?B" by simp
  ultimately have "card ?A < card ?B" by (rule psubset_card_mono[rotated])
  then show ?thesis by (simp add: larger_count_def)
qed

lemma larger_count_bound:
  fixes a :: "nat \<Rightarrow> rat"
  assumes "i < n"
  shows "larger_count a n i < n"
proof -
  let ?A = "{x. x < n \<and> a i < a x}"
  have "?A \<subseteq> {..<n}" by blast
  moreover have "i \<in> {..<n}" "i \<notin> ?A" using assms by simp_all
  ultimately have "?A \<subset> {..<n}" by blast
  moreover have "finite {..<n}" by simp
  ultimately have "card ?A < card {..<n}" by (rule psubset_card_mono[rotated])
  then show ?thesis by (simp add: larger_count_def)
qed

lemma depth_total:
  fixes a :: "nat \<Rightarrow> rat"
  assumes PL: "\<forall>i < length pids. \<forall>p. pids ! i = Some p \<longrightarrow>
                 (\<exists>j < length pids. m p = Some j \<and> a i < a j)"
  shows "i < length pids \<Longrightarrow> \<exists>d. has_depth m pids i d"
proof (induction i rule: measure_induct_rule[of "larger_count a (length pids)"])
  case (less i)
  show ?case
  proof (cases "pids ! i")
    case None
    with less.prems show ?thesis by (auto intro: has_depth.root)
  next
    case (Some p)
    with PL less.prems obtain j where j: "j < length pids" "m p = Some j" "a i < a j" by blast
    from less.IH[OF larger_count_less[OF j(1,3)] j(1)] obtain d where "has_depth m pids j d" ..
    with less.prems Some j(2) show ?thesis by (auto intro: has_depth.child)
  qed
qed

lemma depth_bound:
  fixes a :: "nat \<Rightarrow> rat"
  assumes PL: "\<forall>i < length pids. \<forall>p. pids ! i = Some p \<longrightarrow>
                 (\<exists>j < length pids. m p = Some j \<and> a i < a j)"
  shows "has_depth m pids i d \<Longrightarrow> d \<le> larger_count a (length pids) i"
proof (induction rule: has_depth.induct)
  case (root i)
  then show ?case by simp
next
  case (child i p j d)
  from PL child.hyps(1,2,3) have "j < length pids" "a i < a j" by auto
  from larger_count_less[OF this] child.IH show ?case by simp
qed

subsection \<open>calculate_nesting_levels\<close>

lemma parents_larger_PL:
  assumes "parents_larger ts"
  shows "\<forall>i < length (map parent_id ts). \<forall>p. map parent_id ts ! i = Some p \<longrightarrow>
           (\<exists>j < length (map parent_id ts). table_id_to_index ts p = Some j
              \<and> calculate_area (bbox (ts ! i)) < calculate_area (bbox (ts ! j)))"
proof (intro allI impI)
  fix i p
  assume i: "i < length (map parent_id ts)" and p: "map parent_id ts ! i = Some p"
  then have pi: "parent_id (ts ! i) = Some p" and i': "i \<in> set [0..<length ts]" by simp_all
  from assms i' pi obtain j where j: "table_id_to_index ts p = Some j"
    and a: "calculate_area (bbox (ts ! i)) < calculate_area (bbox (ts ! j))"
    unfolding parents_larger_def by (fastforce split: option.splits)
  from table_id_to_index_Some[OF j] have "j < length (map parent_id ts)" by simp
  with j a show "\<exists>j < length (map parent_id ts). table_id_to_index ts p = Some j
              \<and> calculate_area (bbox (ts ! i)) < calculate_area (bbox (ts ! j))" by blast
qed

lemma calculate_nesting_levels_terminates:
  assumes "parents_larger ts"
  shows "\<exists>ts' passes. calculate_nesting_levels ts = Some (Inr (ts', passes))
           \<and> passes \<le> max 1 (length ts)"
proof -
  let ?m = "table_id_to_index ts"
  let ?ts0 = "map (\<lambda>t. t\<lparr>nesting_level := 0\<rparr>) ts"
  let ?pids = "map parent_id ts"
  let ?a = "\<lambda>i. calculate_area (bbox (ts ! i))"
  note PL = parents_larger_PL[OF assms]
  have total: "\<forall>i < length ?pids. \<exists>d. has_depth ?m ?pids i d"
    using depth_total[of ?pids ?m ?a, OF PL] by blast
  have bound: "\<forall>i d. has_depth ?m ?pids i d \<longrightarrow> d \<le> length ts - 1"
  proof (intro allI impI)
    fix i d assume h: "has_depth ?m ?pids i d"
    from depth_bound[of ?pids ?m ?a, OF PL h] have "d \<le> larger_count ?a (length ?pids) i" .
    moreover from has_depth_less[OF h] have "larger_count ?a (length ?pids) i < length ?pids"
      by (rule larger_count_bound)
    ultimately show "d \<le> length ts - 1" by simp
  qed
  have p0: "map parent_id ?ts0 = ?pids" by simp
  have lv0: "nesting_level (?ts0 ! i) = 0" if "i < length ts" for i using that by simp
  have up: "lvl_upper ?m ?pids ?ts0"
    unfolding lvl_upper_def using lv0 has_depth_less[of ?m ?pids] by fastforce
  have st: "lvl_settled ?m ?pids UNIV 0 ?ts0"
    unfolding lvl_settled_def using lv0 has_depth_less[of ?m ?pids] by fastforce
  from levels_loop_terminates[OF total bound p0 up st, of 0]
  obtain ts' p where "levels_loop ?m 0 ?ts0 = Some (Inr (ts', p))" "p \<le> Suc 0 + (length ts - 1 - 0)"
    by blast
  then show ?thesis by (auto simp: calculate_nesting_levels_def)
qed

lemma calculate_nesting_levels_resolved:
  assumes "calculate_nesting_levels ts = Some (Inr (ts', passes))"
  shows "levels_resolved (table_id_to_index ts) ts'"
    and "level_pass (table_id_to_index ts) [0..<length ts'] (ts', False) = Inr (ts', False)"
    and "same_regions ts ts'" and "map parent_id ts' = map parent_id ts"
proof -
  let ?m = "table_id_to_index ts"
  let ?ts0 = "map (\<lambda>t. t\<lparr>nesting_level := 0\<rparr>) ts"
  from assms have loop: "levels_loop ?m 0 ?ts0 = Some (Inr (ts', passes))"
    by (simp add: calculate_nesting_levels_def)
  note res = levels_loop_result[OF loop]
  show fx: "level_pass ?m [0..<length ts'] (ts', False) = Inr (ts', False)" by (rule res(1))
  have len: "length ts' = length ts" using res(2) by simp
  have tid: "map table_id ts' = map table_id ts" using res(4) by (simp add: comp_def)
  show pid: "map parent_id ts' = map parent_id ts" using res(3) by (simp add: comp_def)
  show "same_regions ts ts'"
    using res(2,4,5,6) by (simp add: same_regions_def comp_def)
  show "levels_resolved ?m ts'"
    unfolding levels_resolved_def
  proof
    fix i assume "i \<in> set [0..<length ts']"
    then have i: "i < length ts'" by simp
    show "case parent_id (ts' ! i) of
            None \<Rightarrow> nesting_level (ts' ! i) = 0
          | Some p \<Rightarrow> (case ?m p of None \<Rightarrow> False
               | Some j \<Rightarrow> j < length ts' \<and> table_id (ts' ! j) = p
                    \<and> nesting_level (ts' ! j) < nesting_level (ts' ! i))"
    proof (cases "parent_id (ts' ! i)")
      case None
      from i len have "parent_id (?ts0 ! i) = parent_id (ts' ! i)"
        using arg_cong[OF pid, of "\<lambda>xs. xs ! i"] by simp
      with None have "parent_id (?ts0 ! i) = None" by simp
      from res(7)[OF this] i len None show ?thesis by simp
    next
      case (Some p)
      from level_pass_False[OF fx] i Some obtain j where j: "?m p = Some j"
        and lt: "nesting_level (ts' ! j) < nesting_level (ts' ! i)" by fastforce
      from table_id_to_index_Some[OF j] have jl: "j < length ts" and tj: "table_id (ts ! j) = p"
        by simp_all
      from jl len have "table_id (ts' ! j) = table_id (ts ! j)"
        using arg_cong[OF tid, of "\<lambda>xs. xs ! j"] by simp
      with Some j lt jl len tj show ?thesis by simp
    qed
  qed
qed

subsection \<open>The marking loops\<close>

lemma same_regions_refl: "same_regions ts ts"
  by (simp add: same_regions_def)

lemma same_regions_trans: "same_regions ts us \<Longrightarrow> same_regions us vs \<Longrightarrow> same_regions ts vs"
  by (simp add: same_regions_def)

lemma same_regions_nth:
  assumes "same_regions ts ts'" "i < length ts"
  shows "bbox (ts' ! i) = bbox (ts ! i)" and "table_id (ts' ! i) = table_id (ts ! i)"
    and "page (ts' ! i) = page (ts ! i)"
proof -
  from assms have len: "i < length ts'" by (simp add: same_regions_def)
  from assms(1) have "map bbox ts' ! i = map bbox ts ! i" "map table_id ts' ! i = map table_id ts ! i"
    "map page ts' ! i = map page ts ! i" by (simp_all add: same_regions_def)
  with len assms(2) show "bbox (ts' ! i) = bbox (ts ! i)" "table_id (ts' ! i) = table_id (ts ! i)"
    "page (ts' ! i) = page (ts ! i)" by simp_all
qed

lemma mark_pair_inv:
  assumes "oi < length ts" "ii < length ts" "parent_inv ts"
  shows "\<exists>ts'. mark_pair (i, oi) (j, ii) ts = Inr ts' \<and> parent_inv ts' \<and> same_regions ts ts'"
proof (cases "i \<noteq> j \<and> is_contained (bbox (ts ! ii)) (bbox (ts ! oi)) (85 / 100) = Inr True")
  case True
  let ?u = "ts[ii := (ts ! ii)\<lparr>parent_id := Some (table_id (ts ! oi))\<rparr>]"
  from True have mp: "mark_pair (i, oi) (j, ii) ts = Inr ?u" by (simp add: mark_pair_def)
  from True have ar: "calculate_area (bbox (ts ! ii)) < calculate_area (bbox (ts ! oi))"
    by (auto dest: is_contained_area)
  have sr: "same_regions ts ?u"
    by (simp add: same_regions_def map_update map_update_same)
  have nth: "?u ! x = (if x = ii then (ts ! ii)\<lparr>parent_id := Some (table_id (ts ! oi))\<rparr> else ts ! x)" for x
    using assms(2) by (simp add: nth_list_update)
  have bb: "bbox (?u ! x) = bbox (ts ! x)" and ti: "table_id (?u ! x) = table_id (ts ! x)" for x
    by (simp_all add: nth)
  have "parent_inv ?u"
    unfolding parent_inv_def
  proof (intro allI impI)
    fix x p
    assume x: "x < length ?u" and p: "parent_id (?u ! x) = Some p"
    show "\<exists>y < length ?u. table_id (?u ! y) = p
            \<and> calculate_area (bbox (?u ! x)) < calculate_area (bbox (?u ! y))"
    proof (cases "x = ii")
      case True
      with p have "p = table_id (ts ! oi)" by (simp add: nth)
      with True ar assms(1) show ?thesis
        unfolding bb ti by auto
    next
      case False
      with p have "parent_id (ts ! x) = Some p" by (simp add: nth)
      with assms(3) x show ?thesis
        unfolding bb ti parent_inv_def by simp
    qed
  qed
  with mp sr show ?thesis by blast
next
  case False
  have "is_contained (bbox (ts ! ii)) (bbox (ts ! oi)) (85 / 100) = Inr False" if "i \<noteq> j"
  proof (cases "is_contained (bbox (ts ! ii)) (bbox (ts ! oi)) (85 / 100)")
    case (Inl e)
    then show ?thesis using is_contained_no_error by blast
  next
    case (Inr b)
    with False that show ?thesis by simp
  qed
  then have "mark_pair (i, oi) (j, ii) ts = Inr ts"
    by (auto simp: mark_pair_def)
  with assms(3) show ?thesis by (auto simp: same_regions_refl)
qed

lemma mark_inner_inv:
  "oi < length ts \<Longrightarrow> \<forall>x \<in> set inners. snd x < length ts \<Longrightarrow> parent_inv ts
     \<Longrightarrow> \<exists>ts'. mark_inner (i, oi) inners ts = Inr ts' \<and> parent_inv ts' \<and> same_regions ts ts'"
proof (induction inners arbitrary: ts)
  case Nil
  then show ?case by (simp add: same_regions_refl)
next
  case (Cons x inners)
  obtain j ii where x: "x = (j, ii)" by (cases x) auto
  with Cons.prems have ii: "ii < length ts" by simp
  from mark_pair_inv[OF Cons.prems(1) ii Cons.prems(3), of i j]
  obtain u where u: "mark_pair (i, oi) (j, ii) ts = Inr u" "parent_inv u" "same_regions ts u"
    by blast
  then have len: "length u = length ts" by (simp add: same_regions_def)
  from Cons.IH[of u] Cons.prems len u(2)
  obtain ts' where "mark_inner (i, oi) inners u = Inr ts'" "parent_inv ts'" "same_regions u ts'"
    by auto
  with u x show ?case by (auto intro: same_regions_trans)
qed

lemma mark_outer_inv:
  "\<forall>x \<in> set outers. snd x < length ts \<Longrightarrow> \<forall>x \<in> set page_tables. snd x < length ts
     \<Longrightarrow> parent_inv ts
     \<Longrightarrow> \<exists>ts'. mark_outer outers page_tables ts = Inr ts' \<and> parent_inv ts' \<and> same_regions ts ts'"
proof (induction outers arbitrary: ts)
  case Nil
  then show ?case by (simp add: same_regions_refl)
next
  case (Cons x outers)
  obtain i oi where x: "x = (i, oi)" by (cases x) auto
  with Cons.prems have oi: "oi < length ts" by simp
  from mark_inner_inv[OF oi Cons.prems(2,3), of i]
  obtain u where u: "mark_inner (i, oi) page_tables ts = Inr u" "parent_inv u" "same_regions ts u"
    by blast
  then have len: "length u = length ts" by (simp add: same_regions_def)
  from Cons.IH[of u] Cons.prems len u(2)
  obtain ts' where "mark_outer outers page_tables u = Inr ts'" "parent_inv ts'" "same_regions u ts'"
    by auto
  with u x show ?case by (auto intro: same_regions_trans)
qed

lemma snd_enumerate_mem: "x \<in> set (List.enumerate n xs) \<Longrightarrow> snd x \<in> set xs"
  by (cases x) (auto simp: in_set_enumerate_eq)

lemma mark_pages_inv:
  "\<forall>g \<in> set groups. \<forall>i \<in> set (snd g). i < length ts \<Longrightarrow> parent_inv ts
     \<Longrightarrow> \<exists>ts'. mark_pages groups ts = Inr ts' \<and> parent_inv ts' \<and> same_regions ts ts'"
proof (induction groups arbitrary: ts)
  case Nil
  then show ?case by (simp add: same_regions_refl)
next
  case (Cons g groups)
  obtain pg idxs where g: "g = (pg, idxs)" by (cases g) auto
  let ?pt = "List.enumerate 0 (sort_by_area_desc ts idxs)"
  have "snd x < length ts" if "x \<in> set ?pt" for x
  proof -
    from that have "snd x \<in> set (sort_by_area_desc ts idxs)"
      by (rule snd_enumerate_mem)
    then have "snd x \<in> set idxs" by (simp add: sort_by_area_desc_def)
    with Cons.prems(1) g show ?thesis by simp
  qed
  then have pt: "\<forall>x \<in> set ?pt. snd x < length ts" by blast
  from mark_outer_inv[OF pt pt Cons.prems(2)]
  obtain u where u: "mark_outer ?pt ?pt ts = Inr u" "parent_inv u" "same_regions ts u"
    by blast
  then have len: "length u = length ts" by (simp add: same_regions_def)
  from Cons.IH[of u] Cons.prems(1) len u(2)
  obtain ts' where "mark_pages groups u = Inr ts'" "parent_inv ts'" "same_regions u ts'"
    by auto
  with u g show ?case by (auto simp: Let_def intro: same_regions_trans)
qed

lemma add_to_page_idxs:
  "\<forall>g \<in> set groups. \<forall>i \<in> set (snd g). i < n \<Longrightarrow> k < n
     \<Longrightarrow> \<forall>g \<in> set (add_to_page pg k groups). \<forall>i \<in> set (snd g). i < n"
  by (induction pg k groups rule: add_to_page.induct) auto

lemma fold_add_to_page_idxs:
  "\<forall>g \<in> set groups. \<forall>i \<in> set (snd g). i < n \<Longrightarrow> set ks \<subseteq> {..<n}
     \<Longrightarrow> \<forall>g \<in> set (fold (\<lambda>i groups. add_to_page (f i) i groups) ks groups). \<forall>i \<in> set (snd g). i < n"
proof (induction ks arbitrary: groups)
  case Nil
  then show ?case by simp
next
  case (Cons k ks)
  from Cons.prems have "k < n" "set ks \<subseteq> {..<n}" by auto
  from Cons.IH[OF add_to_page_idxs[OF Cons.prems(1) this(1)] this(2)] show ?case by simp
qed

lemma tables_by_page_idxs:
  "\<forall>g \<in> set (tables_by_page ts). \<forall>i \<in> set (snd g). i < length ts"
  unfolding tables_by_page_def
  by (rule fold_add_to_page_idxs) auto

lemma parent_inv_parents_larger:
  assumes "parent_inv ts" "distinct (map table_id ts)"
  shows "parents_larger ts"
  unfolding parents_larger_def
proof
  fix i assume "i \<in> set [0..<length ts]"
  then have i: "i < length ts" by simp
  show "case parent_id (ts ! i) of None \<Rightarrow> True
        | Some p \<Rightarrow> (case table_id_to_index ts p of None \<Rightarrow> False
            | Some j \<Rightarrow> calculate_area (bbox (ts ! i)) < calculate_area (bbox (ts ! j)))"
  proof (cases "parent_id (ts ! i)")
    case None
    then show ?thesis by simp
  next
    case (Some p)
    with assms(1) i obtain j where j: "j < length ts" "table_id (ts ! j) = p"
      "calculate_area (bbox (ts ! i)) < calculate_area (bbox (ts ! j))"
      unfolding parent_inv_def by blast
    from table_id_to_index_distinct[OF assms(2) j(1)] j(2)
    have "table_id_to_index ts p = Some j" by simp
    with Some j(3) show ?thesis by simp
  qed
qed

lemma detect_nested_relationships_total:
  assumes ids: "distinct (map table_id ts)" and nopar: "\<forall>t \<in> set ts. parent_id t = None"
  shows "\<exists>ts' passes. detect_nested_relationships ts = Some (Inr (ts', passes))
           \<and> levels_resolved (table_id_to_index ts) ts' \<and> same_regions ts ts'"
proof -
  have inv0: "parent_inv ts" using nopar by (simp add: parent_inv_def)
  from mark_pages_inv[OF tables_by_page_idxs inv0]
  obtain u where u: "mark_pages (tables_by_page ts) ts = Inr u" "parent_inv u" "same_regions ts u"
    by blast
  from u(3) have tid: "map table_id u = map table_id ts" by (simp add: same_regions_def)
  with ids have "distinct (map table_id u)" by simp
  from parent_inv_parents_larger[OF u(2) this] have "parents_larger u" .
  from calculate_nesting_levels_terminates[OF this]
  obtain ts' passes where c: "calculate_nesting_levels u = Some (Inr (ts', passes))" by blast
  from calculate_nesting_levels_resolved(1,3)[OF c] table_id_to_index_cong[OF tid]
  have "levels_resolved (table_id_to_index ts) ts'" "same_regions u ts'" by simp_all
  with u c show ?thesis
    by (auto simp: detect_nested_relationships_def intro: same_regions_trans)
qed
section \<open>Claims about the nesting resolver\<close>

lemma ex_chain_levels:
  "calculate_nesting_levels ex_chain = Some (Inr (ex_chain_resolved, 3))"
  apply code_simp
  apply (simp add: levels_loop.simps)
  done

lemma ex_detect:
  "detect_nested_relationships [exC, exB, exA] = Some (Inr (ex_chain_resolved, 3))"
  apply code_simp
  apply (simp add: levels_loop.simps)
  done

text \<open>
  C1. After the resolver has run, every region with a parent has a nesting level strictly
  greater than the level of the region its \<open>parent_id\<close> names (the entry the id-to-index
  dict resolves the id to), and every region without parent has level 0. First conjunct:
  this holds of whatever \<open>_calculate_nesting_levels\<close> returns, for any input list. Second
  conjunct: on regions as the provider creates them (distinct ids, no parent yet) the whole
  of \<open>_detect_nested_relationships\<close> returns, and its result has the property.
\<close>

theorem nesting_levels_resolved:
  "(calculate_nesting_levels ts = Some (Inr (ts', passes))
      \<longrightarrow> levels_resolved (table_id_to_index ts) ts')
   \<and> (distinct (map table_id rs) \<and> (\<forall>t \<in> set rs. parent_id t = None)
      \<longrightarrow> (\<exists>rs' n. detect_nested_relationships rs = Some (Inr (rs', n))
             \<and> levels_resolved (table_id_to_index rs) rs'))"
proof (intro conjI impI)
  assume "calculate_nesting_levels ts = Some (Inr (ts', passes))"
  then show "levels_resolved (table_id_to_index ts) ts'"
    by (rule calculate_nesting_levels_resolved(1))
next
  assume "distinct (map table_id rs) \<and> (\<forall>t \<in> set rs. parent_id t = None)"
  then have "distinct (map table_id rs)" "\<forall>t \<in> set rs. parent_id t = None" by simp_all
  from detect_nested_relationships_total[OF this]
  show "\<exists>rs' n. detect_nested_relationships rs = Some (Inr (rs', n))
          \<and> levels_resolved (table_id_to_index rs) rs'" by blast
qed

theorem nesting_levels_resolved_witness:
  "calculate_nesting_levels ex_chain = Some (Inr (ex_chain_resolved, 3))
   \<and> levels_resolved (table_id_to_index ex_chain) ex_chain_resolved
   \<and> distinct (map table_id [exC, exB, exA])
   \<and> map parent_id [exC, exB, exA] = [None, None, None]
   \<and> (\<exists>rs' n. detect_nested_relationships [exC, exB, exA] = Some (Inr (rs', n))
        \<and> levels_resolved (table_id_to_index [exC, exB, exA]) rs')"
proof -
  have h: "distinct (map table_id [exC, exB, exA]) \<and> (\<forall>t \<in> set [exC, exB, exA]. parent_id t = None)"
    by (simp add: exA_def exB_def exC_def)
  have p: "map parent_id [exC, exB, exA] = [None, None, None]"
    by (simp add: exA_def exB_def exC_def)
  from nesting_levels_resolved[of ex_chain ex_chain_resolved 3 "[exC, exB, exA]"] ex_chain_levels h p
  show ?thesis by blast
qed



text \<open>
  C3. When every region with a \<open>parent_id\<close> has a parent of strictly greater area (what the
  containment test produces), the fixpoint iteration returns, without \<open>KeyError\<close>, after
  \<open>passes\<close> executions of the loop body, where \<open>passes \<le> max 1 N\<close> for \<open>N\<close> regions: the
  last execution changes nothing, so the fixpoint is reached after \<open>passes - 1 < N\<close> passes
  (for \<open>N = 0\<close> the body runs once, over no region). The returned list is a fixpoint of
  the pass.
\<close>

theorem nesting_levels_fixpoint_within_N:
  assumes "parents_larger ts"
  shows "\<exists>ts' passes.
           calculate_nesting_levels ts = Some (Inr (ts', passes))
           \<and> passes \<le> max 1 (length ts)
           \<and> level_pass (table_id_to_index ts) [0..<length ts'] (ts', False) = Inr (ts', False)"
proof -
  from calculate_nesting_levels_terminates[OF assms]
  obtain ts' passes where c: "calculate_nesting_levels ts = Some (Inr (ts', passes))"
    and p: "passes \<le> max 1 (length ts)" by blast
  from calculate_nesting_levels_resolved(2)[OF c] c p show ?thesis by blast
qed

theorem nesting_levels_fixpoint_within_N_witness:
  "parents_larger ex_chain
   \<and> (\<exists>ts' passes.
         calculate_nesting_levels ex_chain = Some (Inr (ts', passes))
         \<and> passes \<le> max 1 (length ex_chain)
         \<and> level_pass (table_id_to_index ex_chain) [0..<length ts'] (ts', False) = Inr (ts', False))"
proof -
  have h: "parents_larger ex_chain" by code_simp
  from nesting_levels_fixpoint_within_N[OF h] h show ?thesis by blast
qed

end
